theory Spec2Isabelle
  imports Main "HOL-Library.Char_ord" "HOL-Library.List_Lexorder" "HOL-Library.Multiset"
begin

section \<open>Strings\<close>

text \<open>
  A Python \<open>str\<close> is a sequence of code points. The model uses \<^typ>\<open>string\<close>, so a
  character is a code point below 256. The optimizer distinguishes only white space,
  the ASCII letters and digits, and the punctuation \<open>$ , = | ^ / . - @ ! #\<close>; every
  other code point is treated alike.
\<close>

definition startswith :: "string \<Rightarrow> string \<Rightarrow> bool" where
  "startswith s p = (take (length p) s = p)"

definition endswith :: "string \<Rightarrow> string \<Rightarrow> bool" where
  "endswith s p = (length p \<le> length s \<and> drop (length s - length p) s = p)"

text \<open>\<open>str.isspace\<close> on the code points below 256; \<open>str.strip()\<close> and the regular
  expression class \<open>\s\<close> both use it.\<close>

definition isspace :: "char \<Rightarrow> bool" where
  "isspace c = (c \<in> set [CHR 0x09, CHR 0x0A, CHR 0x0B, CHR 0x0C, CHR 0x0D,
                          CHR 0x1C, CHR 0x1D, CHR 0x1E, CHR 0x1F, CHR 0x20,
                          CHR 0x85, CHR 0xA0])"

definition strip :: "string \<Rightarrow> string" where
  "strip s = rev (dropWhile isspace (rev (dropWhile isspace s)))"

text \<open>\<open>re.sub(r'\s+', ' ', rule)\<close>: every maximal run of white space becomes one space.\<close>

function collapse_ws :: "string \<Rightarrow> string" where
  "collapse_ws [] = []"
| "collapse_ws (c # cs) =
     (if isspace c then CHR '' '' # collapse_ws (dropWhile isspace cs)
      else c # collapse_ws cs)"
  by pat_completeness auto
termination
  by (relation "measure length") (auto simp: less_Suc_eq_le length_dropWhile_le)

text \<open>\<open>s.split(sep)\<close> for a separator of one character: all the pieces, empty ones
  included; the empty string gives one empty piece.\<close>

fun split_on :: "char \<Rightarrow> string \<Rightarrow> string list" where
  "split_on sep [] = [[]]"
| "split_on sep (c # cs) =
     (if c = sep then [] # split_on sep cs
      else (case split_on sep cs of
              [] \<Rightarrow> [[c]]
            | w # ws \<Rightarrow> (c # w) # ws))"

text \<open>\<open>sep.join(xs)\<close>.\<close>

fun join :: "string \<Rightarrow> string list \<Rightarrow> string" where
  "join sep [] = []"
| "join sep [x] = x"
| "join sep (x # y # ys) = x @ sep @ join sep (y # ys)"

section \<open>Pattern canonicalization: \<open>convert_to_pipe_format\<close>\<close>

text \<open>
  \<open>re.match(r'^\|\|([^/^$]+)\^', rule)\<close>: the rule begins with \<open>||\<close>, then comes a
  non-empty run of characters other than \<open>/\<close>, \<open>^\<close> and \<open>$\<close>, then \<open>^\<close>. The class
  excludes \<open>^\<close>, so only the longest run can be followed by \<open>^\<close> and giving characters
  back never helps.
\<close>

definition host_char :: "char \<Rightarrow> bool" where
  "host_char c = (c \<notin> set ''/^$'')"

definition match_anchored :: "string \<Rightarrow> bool" where
  "match_anchored rule =
     (startswith rule ''||'' \<and>
      (let rest = drop 2 rule in
         takeWhile host_char rest \<noteq> [] \<and> startswith (dropWhile host_char rest) ''^''))"

text \<open>
  \<open>re.search(r'([a-zA-Z0-9.-]+\.[a-zA-Z]{2,})', rule)\<close>. At one start position the
  first group takes the longest run of \<open>[a-zA-Z0-9.-]\<close> and then gives back one
  character at a time (\<open>try_lengths\<close>) until a dot and at least two letters follow;
  the letters are taken greedily. The search tries the start positions from the left.
\<close>

definition is_alpha :: "char \<Rightarrow> bool" where
  "is_alpha c = (c \<in> set ''abcdefghijklmnopqrstuvwxyzABCDEFGHIJKLMNOPQRSTUVWXYZ'')"

definition is_domain_char :: "char \<Rightarrow> bool" where
  "is_domain_char c = (is_alpha c \<or> c \<in> set ''0123456789.-'')"

fun try_lengths :: "string \<Rightarrow> nat \<Rightarrow> string option" where
  "try_lengths s 0 = None"
| "try_lengths s (Suc k) =
     (let rest = drop (Suc k) s; letters = takeWhile is_alpha (drop 1 rest) in
        if startswith rest ''.'' \<and> 2 \<le> length letters
        then Some (take (Suc k + 1 + length letters) s)
        else try_lengths s k)"

definition match_domain_at :: "string \<Rightarrow> string option" where
  "match_domain_at s = try_lengths s (length (takeWhile is_domain_char s))"

fun search_domain :: "string \<Rightarrow> string option" where
  "search_domain [] = None"
| "search_domain (c # cs) =
     (case match_domain_at (c # cs) of
        Some d \<Rightarrow> Some d
      | None \<Rightarrow> search_domain cs)"

definition convert_to_pipe_format :: "string \<Rightarrow> string" where
  "convert_to_pipe_format rule =
     (if startswith rule ''||'' \<and> endswith rule ''^'' then rule
      else if startswith rule ''@@||'' \<and> endswith rule ''^'' then rule
      else if match_anchored rule then rule
      else (case search_domain rule of
              Some domain \<Rightarrow>
                if startswith rule ''@@'' then ''@@||'' @ domain @ ''^''
                else ''||'' @ domain @ ''^''
            | None \<Rightarrow> rule))"

section \<open>Rule normalization: \<open>normalize_rule\<close>\<close>

text \<open>The keys of the configuration that the pipeline reads.\<close>

record config =
  cfg_remove_invalid :: bool
  cfg_domain_convergence :: bool
  cfg_format_standardize :: bool
  cfg_supported_modifiers :: "string list"

definition default_config :: config where
  "default_config =
     \<lparr> cfg_remove_invalid = True,
       cfg_domain_convergence = True,
       cfg_format_standardize = True,
       cfg_supported_modifiers =
         [''domain'', ''third-party'', ''important'', ''client'',
          ''dnstype'', ''dnsrewrite'', ''rewrite''] \<rparr>"

text \<open>\<open>[m.strip() for m in modifiers.split(',') if m.strip()]\<close>.\<close>

definition modifier_list :: "string \<Rightarrow> string list" where
  "modifier_list modifiers =
     filter (\<lambda>m. m \<noteq> []) (map strip (split_on CHR '','' modifiers))"

text \<open>\<open>modifier.split('=')[0]\<close>; a split always has a first piece.\<close>

definition mod_name :: "string \<Rightarrow> string" where
  "mod_name modifier = hd (split_on CHR ''='' modifier)"

text \<open>The loop that appends the modifiers with a supported name to \<open>valid_modifiers\<close>.\<close>

fun select_modifiers :: "string list \<Rightarrow> string list \<Rightarrow> string list \<Rightarrow> string list" where
  "select_modifiers supported [] valid_modifiers = valid_modifiers"
| "select_modifiers supported (modifier # rest) valid_modifiers =
     select_modifiers supported rest
       (if mod_name modifier \<in> set supported then valid_modifiers @ [modifier]
        else valid_modifiers)"

text \<open>The branch \<open>if '$' in rule\<close>. \<open>rule.split('$', 1)\<close> cuts at the first \<open>$\<close>:
  \<open>pattern\<close> is the stripped text before it, \<open>modifiers\<close> the stripped text after it.\<close>

definition rule_pattern :: "string \<Rightarrow> string" where
  "rule_pattern rule = strip (takeWhile (\<lambda>c. c \<noteq> CHR ''$'') rule)"

definition rule_modifiers :: "string \<Rightarrow> string" where
  "rule_modifiers rule = strip (drop 1 (dropWhile (\<lambda>c. c \<noteq> CHR ''$'') rule))"

definition process_modifiers :: "config \<Rightarrow> string \<Rightarrow> string" where
  "process_modifiers cfg rule =
     (let pattern = rule_pattern rule;
          modifiers = rule_modifiers rule;
          valid_modifiers =
            select_modifiers (cfg_supported_modifiers cfg) (modifier_list modifiers) []
      in if valid_modifiers \<noteq> []
         then pattern @ ''$'' @ join '','' (sort valid_modifiers)
         else pattern)"

definition normalize_rule :: "config \<Rightarrow> string \<Rightarrow> string option" where
  "normalize_rule cfg raw =
     (let rule = strip raw in
        if rule = [] \<or> startswith rule ''!'' \<or> startswith rule ''#'' then None
        else
          let rule = collapse_ws rule;
              rule = (if CHR ''$'' \<in> set rule then process_modifiers cfg rule else rule);
              rule = (if cfg_format_standardize cfg then convert_to_pipe_format rule
                      else rule)
          in Some rule)"

text \<open>The loop of \<open>run\<close> over the raw lines keeps every result that is neither
  \<open>None\<close> nor the empty string.\<close>

fun normalize_all :: "config \<Rightarrow> string list \<Rightarrow> string list" where
  "normalize_all cfg [] = []"
| "normalize_all cfg (raw # raws) =
     (case normalize_rule cfg raw of
        None \<Rightarrow> normalize_all cfg raws
      | Some normalized \<Rightarrow>
          if normalized \<noteq> [] then normalized # normalize_all cfg raws
          else normalize_all cfg raws)"

section \<open>Deduplication\<close>

text \<open>One step of the scan over \<open>(seen, unique_rules, duplicates)\<close>.\<close>

fun dedup_step ::
  "string set \<times> string list \<times> string list \<Rightarrow> string \<Rightarrow>
   string set \<times> string list \<times> string list" where
  "dedup_step (seen, unique_rules, duplicates) rule =
     (if rule \<notin> seen then (insert rule seen, unique_rules @ [rule], duplicates)
      else (seen, unique_rules, duplicates @ [rule]))"

definition dedup_scan :: "string list \<Rightarrow> string list \<times> string list" where
  "dedup_scan rules = snd (foldl dedup_step ({}, [], []) rules)"

section \<open>Domain convergence\<close>

definition is_domain_rule :: "string \<Rightarrow> bool" where
  "is_domain_rule rule = (startswith rule ''||'' \<and> endswith rule ''^'')"

text \<open>\<open>rule[2:-1]\<close>.\<close>

definition domain_of :: "string \<Rightarrow> string" where
  "domain_of rule = butlast (drop 2 rule)"

text \<open>A dict keeps its keys in the order of their first insertion; assigning to a key
  that is present replaces the value in place.\<close>

fun dict_set :: "'k \<Rightarrow> 'v \<Rightarrow> ('k \<times> 'v) list \<Rightarrow> ('k \<times> 'v) list" where
  "dict_set k v [] = [(k, v)]"
| "dict_set k v ((k', v') # kvs) =
     (if k' = k then (k, v) # kvs else (k', v') # dict_set k v kvs)"

fun partition_step ::
  "(string \<times> string) list \<times> string list \<Rightarrow> string \<Rightarrow>
   (string \<times> string) list \<times> string list" where
  "partition_step (domain_rules, other_rules) rule =
     (if is_domain_rule rule then (dict_set (domain_of rule) rule domain_rules, other_rules)
      else (domain_rules, other_rules @ [rule]))"

definition partition_rules :: "string list \<Rightarrow> (string \<times> string) list \<times> string list" where
  "partition_rules rules = foldl partition_step ([], []) rules"

text \<open>\<open>sorted(domain_rules.keys(), key=len, reverse=True)\<close>: a stable sort, also with
  \<open>reverse=True\<close>, so hosts of the same length keep the order of the dict.\<close>

definition sorted_domains :: "(string \<times> string) list \<Rightarrow> string list" where
  "sorted_domains domain_rules =
     sort_key (\<lambda>d. - int (length d)) (map fst domain_rules)"

definition dominated :: "string \<Rightarrow> string \<Rightarrow> bool" where
  "dominated domain other = (endswith domain (''.'' @ other) \<or> domain = other)"

text \<open>The two nested loops: a host is marked when one of the hosts after it in the
  sorted order dominates it (the inner loop stops at the first one). The marked hosts are
  listed in the order they are marked; the source holds them in a set.\<close>

fun mark_redundant :: "string list \<Rightarrow> string list" where
  "mark_redundant [] = []"
| "mark_redundant (domain # rest) =
     (if list_ex (dominated domain) rest then domain # mark_redundant rest
      else mark_redundant rest)"

text \<open>The pure part of \<open>domain_convergence\<close>: the final rules and the removed rules.
  The source builds the removed rules by iterating over the set \<open>to_remove\<close>, whose order
  is that of the hash table; the model lists them in marking order, and only the
  elements of that list and their number are meaningful.\<close>

definition converge :: "string list \<Rightarrow> string list \<times> string list" where
  "converge rules =
     (let (domain_rules, other_rules) = partition_rules rules;
          to_remove = remdups (mark_redundant (sorted_domains domain_rules));
          final_domain_rules =
            map (\<lambda>d. the (map_of domain_rules d))
              (filter (\<lambda>d. d \<notin> set to_remove) (map fst domain_rules))
      in (other_rules @ final_domain_rules,
          map (\<lambda>d. the (map_of domain_rules d)) to_remove))"

section \<open>Statistics, the removal log and the output files\<close>

text \<open>
  The dict \<open>self.stats\<close>. The key \<open>reduction_percent\<close> is absent until
  \<open>save_statistics\<close> stores it, hence the option. Its value is a floating-point number,
  whose type \<open>'f\<close> and arithmetic are parameters of the model. The time stamps of the
  dict are left out.
\<close>

record 'f run_stats =
  original_count :: nat
  valid_count :: nat
  duplicate_count :: nat
  converged_count :: nat
  final_count :: int
  reduction_percent :: "'f option"

text \<open>What the run takes from outside: the clock, rendered as \<open>save_results\<close> and
  \<open>save_removed_rules\<close> print it, and the floating-point operations.\<close>

record 'f env =
  now_version :: string
  now_iso :: string
  percent :: "nat \<Rightarrow> int \<Rightarrow> 'f"
  zero_percent :: 'f
  fmt2f :: "'f \<Rightarrow> string"

text \<open>One block of the removal log: reason, time, number of rules, the rules. The
  log file is modelled as the list of the blocks appended to it, not as text.\<close>

record removal_record =
  reason :: string
  removed_at :: string
  removed_count :: nat
  removed_rules :: "string list"

text \<open>The optimizer's state and the three output files (\<open>None\<close>: not written). The
  three paths of the configuration are taken to be different files.\<close>

record 'f world =
  stats :: "'f run_stats"
  removed_log :: "removal_record list"
  optimized_file :: "string option"
  statistics_file :: "'f run_stats option"

datatype py_error = KeyError string

definition init_stats :: "'f run_stats" where
  "init_stats =
     \<lparr> original_count = 0, valid_count = 0, duplicate_count = 0, converged_count = 0,
       final_count = 0, reduction_percent = None \<rparr>"

definition init_world :: "removal_record list \<Rightarrow> 'f world" where
  "init_world old_log =
     \<lparr> stats = init_stats, removed_log = old_log,
       optimized_file = None, statistics_file = None \<rparr>"

definition save_removed_rules ::
  "'f env \<Rightarrow> string list \<Rightarrow> string \<Rightarrow> 'f world \<Rightarrow> 'f world" where
  "save_removed_rules e rules why w =
     w\<lparr> removed_log := removed_log w @
          [\<lparr> reason = why, removed_at = now_iso e,
             removed_count = length rules, removed_rules = rules \<rparr>] \<rparr>"

definition deduplicate_rules ::
  "'f env \<Rightarrow> string list \<Rightarrow> 'f world \<Rightarrow> string list \<times> 'f world" where
  "deduplicate_rules e rules w =
     (let (unique_rules, duplicates) = dedup_scan rules;
          w1 = w\<lparr> stats := (stats w)\<lparr> duplicate_count := length duplicates \<rparr> \<rparr>;
          w2 = (if duplicates \<noteq> [] then save_removed_rules e duplicates ''duplicates'' w1
                else w1)
      in (unique_rules, w2))"

definition domain_convergence ::
  "config \<Rightarrow> 'f env \<Rightarrow> string list \<Rightarrow> 'f world \<Rightarrow> string list \<times> 'f world" where
  "domain_convergence cfg e rules w =
     (if \<not> cfg_domain_convergence cfg then (rules, w)
      else
        let (final_rules, removed_subdomains) = converge rules;
            w1 = w\<lparr> stats := (stats w)\<lparr> converged_count := length removed_subdomains \<rparr> \<rparr>;
            w2 = (if removed_subdomains \<noteq> []
                  then save_removed_rules e removed_subdomains ''subdomains'' w1
                  else w1)
        in (final_rules, w2))"

text \<open>\<open>str(n)\<close> for a count.\<close>

function show_nat :: "nat \<Rightarrow> string" where
  "show_nat n =
     (if n < 10 then [''0123456789'' ! n]
      else show_nat (n div 10) @ [''0123456789'' ! (n mod 10)])"
  by pat_completeness auto
termination
  by (relation "measure id") auto

declare show_nat.simps [simp del]

definition NL :: string where
  "NL = [CHR 0x0A]"

text \<open>The header of the optimized file, as the f-string of \<open>save_results\<close> builds it.\<close>

definition header :: "string \<Rightarrow> string \<Rightarrow> nat \<Rightarrow> nat \<Rightarrow> string \<Rightarrow> string" where
  "header version modified original optimized reduction =
     ''! Title: Optimized AdGuard Home Filters'' @ NL @
     ''! Description: Optimized filter list for AdGuard Home'' @ NL @
     ''! Version: '' @ version @ NL @
     ''! Last Modified: '' @ modified @ NL @
     ''! Optimizer: GitHub Actions Automation'' @ NL @
     ''! Original Rules: '' @ show_nat original @ NL @
     ''! Optimized Rules: '' @ show_nat optimized @ NL @
     ''! Reduction: '' @ reduction @ ''%'' @ NL @
     ''! '' @ NL"

text \<open>\<open>save_results\<close> reads \<open>self.stats['reduction_percent']\<close> while it builds the
  header, before it opens the file: an absent key raises \<open>KeyError\<close> and nothing is
  written.\<close>

definition save_results ::
  "'f env \<Rightarrow> string list \<Rightarrow> 'f world \<Rightarrow> py_error + 'f world" where
  "save_results e rules w =
     (case reduction_percent (stats w) of
        None \<Rightarrow> Inl (KeyError ''reduction_percent'')
      | Some r \<Rightarrow>
          Inr (w\<lparr> optimized_file :=
                 Some (header (now_version e) (now_iso e) (original_count (stats w))
                         (length rules) (fmt2f e r)
                       @ concat (map (\<lambda>rule. rule @ NL) (sort rules))) \<rparr>))"

definition save_statistics :: "'f env \<Rightarrow> 'f world \<Rightarrow> 'f world" where
  "save_statistics e w =
     (let st = stats w;
          st1 = st\<lparr> final_count :=
                  int (valid_count st) - int (duplicate_count st) - int (converged_count st) \<rparr>;
          st2 = st1\<lparr> reduction_percent :=
                  Some (if 0 < original_count st1
                        then percent e (original_count st1) (final_count st1)
                        else zero_percent e) \<rparr>
      in w\<lparr> stats := st2, statistics_file := Some st2 \<rparr>)"

text \<open>
  \<open>run\<close>, from the raw lines that \<open>load_rules\<close> returns (it also stores their number in
  \<open>original_count\<close>). The result is \<open>Inr False\<close> or \<open>Inr True\<close> for a returned status and
  \<open>Inl\<close> for an exception that leaves \<open>run\<close>; the process exits with success only on
  \<open>Inr True\<close>.
\<close>

definition run ::
  "config \<Rightarrow> 'f env \<Rightarrow> string list \<Rightarrow> 'f world \<Rightarrow> (py_error + bool) \<times> 'f world" where
  "run cfg e raw_rules w0 =
     (let w = w0\<lparr> stats := (stats w0)\<lparr> original_count := length raw_rules \<rparr> \<rparr> in
        if raw_rules = [] then (Inr False, w)
        else
          let normalized_rules = normalize_all cfg raw_rules;
              w1 = w\<lparr> stats := (stats w)\<lparr> valid_count := length normalized_rules \<rparr> \<rparr>;
              (deduplicated_rules, w2) = deduplicate_rules e normalized_rules w1;
              (final_rules, w3) = domain_convergence cfg e deduplicated_rules w2
          in (case save_results e final_rules w3 of
                Inl err \<Rightarrow> (Inl err, w3)
              | Inr w4 \<Rightarrow> (Inr True, save_statistics e w4)))"

section \<open>Notions used to state the properties\<close>

text \<open>The anchored blocking rule of a host.\<close>

definition anchored :: "string \<Rightarrow> string" where
  "anchored d = ''||'' @ d @ ''^''"

text \<open>The invariant of the dict \<open>domain_rules\<close>: the keys are distinct and each value
  is the anchored rule of its key.\<close>

definition dict_ok :: "(string \<times> string) list \<Rightarrow> bool" where
  "dict_ok kvs = (distinct (map fst kvs) \<and> (\<forall>(k, v) \<in> set kvs. v = anchored k))"

text \<open>The hosts of the anchored rules of a list, and those of them that end with a
  dot followed by another host of the list.\<close>

definition hosts :: "string list \<Rightarrow> string set" where
  "hosts rules = domain_of ` {r \<in> set rules. is_domain_rule r}"

definition redundant :: "string list \<Rightarrow> string set" where
  "redundant rules = {h \<in> hosts rules. \<exists>q \<in> hosts rules. q \<noteq> h \<and> endswith h (''.'' @ q)}"

text \<open>The lines of the header, a text made of lines that each end with a newline, and
  the lines of a text (an unfinished last line counts when it is not empty).\<close>

definition header_lines :: "string \<Rightarrow> string \<Rightarrow> nat \<Rightarrow> nat \<Rightarrow> string \<Rightarrow> string list" where
  "header_lines version modified original optimized reduction =
     [''! Title: Optimized AdGuard Home Filters'',
      ''! Description: Optimized filter list for AdGuard Home'',
      ''! Version: '' @ version,
      ''! Last Modified: '' @ modified,
      ''! Optimizer: GitHub Actions Automation'',
      ''! Original Rules: '' @ show_nat original,
      ''! Optimized Rules: '' @ show_nat optimized,
      ''! Reduction: '' @ reduction @ ''%'',
      ''! '']"

definition unlines :: "string list \<Rightarrow> string" where
  "unlines ls = concat (map (\<lambda>l. l @ NL) ls)"

fun lines_from :: "string \<Rightarrow> string \<Rightarrow> string list" where
  "lines_from cur [] = (if cur = [] then [] else [cur])"
| "lines_from cur (c # cs) =
     (if c = CHR 0x0A then cur # lines_from [] cs else lines_from (cur @ [c]) cs)"

definition file_lines :: "string \<Rightarrow> string list" where
  "file_lines content = lines_from [] content"

text \<open>An environment for evaluating the model on concrete inputs; an integer
  percentage stands for the floating-point number.\<close>

definition example_env :: "int env" where
  "example_env =
     \<lparr> now_version = ''20240101000000'', now_iso = ''2024-01-01T00:00:00'',
       percent = (\<lambda>original final. ((int original - final) * 100) div int original),
       zero_percent = 0, fmt2f = (\<lambda>p. ''0.00'') \<rparr>"

section \<open>Properties of the pattern canonicalization\<close>

lemma startswith_append [simp]: "startswith (p @ s) p"
  by (simp add: startswith_def)

lemma endswith_append [simp]: "endswith (s @ p) p"
  by (simp add: endswith_def)

lemma endswith_append2 [simp]: "endswith (a @ s @ p) p"
  using endswith_append [of "a @ s" p] by simp

text \<open>
  Claim C10. A string that starts with \<open>||\<close> and ends with \<open>^\<close>, or starts with \<open>@@||\<close>
  and ends with \<open>^\<close>, is returned unchanged by the canonicalization, whatever lies
  between: the first two tests of \<open>convert_to_pipe_format\<close> look at the two ends only.
\<close>

theorem convert_keeps_anchored:
  "(startswith s ''||'' \<and> endswith s ''^'') \<or> (startswith s ''@@||'' \<and> endswith s ''^'')
   \<Longrightarrow> convert_to_pipe_format s = s"
  by (auto simp: convert_to_pipe_format_def)

theorem convert_keeps_anchored_witness:
  "startswith ''||a/b^$c d^'' ''||'' \<and> endswith ''||a/b^$c d^'' ''^'' \<and>
   convert_to_pipe_format ''||a/b^$c d^'' = ''||a/b^$c d^'' \<and>
   startswith ''@@||$/^'' ''@@||'' \<and> endswith ''@@||$/^'' ''^'' \<and>
   convert_to_pipe_format ''@@||$/^'' = ''@@||$/^''"
  using convert_keeps_anchored [of "''||a/b^$c d^''"]
        convert_keeps_anchored [of "''@@||$/^''"]
  by (simp add: startswith_def endswith_def)

text \<open>
  Claim C5. The canonicalization is idempotent: a string it returns unchanged stays
  unchanged, and a string it rewrites becomes \<open>||host^\<close> or \<open>@@||host^\<close>, which the
  first two tests return as it is.
\<close>

theorem convert_idempotent:
  "convert_to_pipe_format (convert_to_pipe_format p) = convert_to_pipe_format p"
proof (cases "convert_to_pipe_format p = p")
  case True
  then show ?thesis by simp
next
  case False
  then obtain d where
    "convert_to_pipe_format p = ''@@||'' @ d @ ''^'' \<or>
     convert_to_pipe_format p = ''||'' @ d @ ''^''"
    by (auto simp: convert_to_pipe_format_def split: if_splits option.splits)
  then show ?thesis
  proof
    assume h: "convert_to_pipe_format p = ''@@||'' @ d @ ''^''"
    have "convert_to_pipe_format (''@@||'' @ d @ ''^'') = ''@@||'' @ d @ ''^''"
      unfolding convert_to_pipe_format_def
      using startswith_append [of "''@@||''" "d @ ''^''"]
            endswith_append2 [of "''@@||''" d "''^''"]
      by simp
    with h show ?thesis by simp
  next
    assume h: "convert_to_pipe_format p = ''||'' @ d @ ''^''"
    have "convert_to_pipe_format (''||'' @ d @ ''^'') = ''||'' @ d @ ''^''"
      unfolding convert_to_pipe_format_def
      using startswith_append [of "''||''" "d @ ''^''"]
            endswith_append2 [of "''||''" d "''^''"]
      by simp
    with h show ?thesis by simp
  qed
qed

section \<open>Properties of the deduplication\<close>

lemma dedup_foldl_seen:
  "fst (foldl dedup_step (seen, u, d) rules) = seen \<union> set rules"
  by (induction rules arbitrary: seen u d) auto

lemma dedup_scan_Nil: "dedup_scan [] = ([], [])"
  by (simp add: dedup_scan_def)

lemma dedup_scan_snoc:
  "dedup_scan (rules @ [r]) =
     (if r \<in> set rules then (fst (dedup_scan rules), snd (dedup_scan rules) @ [r])
      else (fst (dedup_scan rules) @ [r], snd (dedup_scan rules)))"
proof -
  obtain seen u d where st: "foldl dedup_step ({}, [], []) rules = (seen, u, d)"
    by (cases "foldl dedup_step ({}, [], []) rules") auto
  have "seen = set rules"
    using dedup_foldl_seen [of "{}" "[]" "[]" rules] st by simp
  then show ?thesis
    using st by (simp add: dedup_scan_def)
qed

lemma first_occurrences_snoc:
  "[(rules @ [r]) ! i. i \<leftarrow> [0..<length (rules @ [r])], P ((rules @ [r]) ! i) (set (take i (rules @ [r])))] =
   [rules ! i. i \<leftarrow> [0..<length rules], P (rules ! i) (set (take i rules))] @
   (if P r (set rules) then [r] else [])"
proof -
  have "[(rules @ [r]) ! i. i \<leftarrow> [0..<length rules], P ((rules @ [r]) ! i) (set (take i (rules @ [r])))] =
        [rules ! i. i \<leftarrow> [0..<length rules], P (rules ! i) (set (take i rules))]"
    by (rule arg_cong [where f = concat], rule map_cong) (auto simp: nth_append)
  then show ?thesis by simp
qed

lemma dedup_scan_kept:
  "fst (dedup_scan rules) = [rules ! i. i \<leftarrow> [0..<length rules], rules ! i \<notin> set (take i rules)]"
proof (induction rules rule: rev_induct)
  case Nil
  then show ?case by (simp add: dedup_scan_Nil)
next
  case (snoc r rules)
  show ?case
    using first_occurrences_snoc [where rules = rules and r = r and P = "\<lambda>x S. x \<notin> S"] snoc
    by (simp only: dedup_scan_snoc split: if_splits) auto
qed

lemma dedup_scan_removed:
  "snd (dedup_scan rules) = [rules ! i. i \<leftarrow> [0..<length rules], rules ! i \<in> set (take i rules)]"
proof (induction rules rule: rev_induct)
  case Nil
  then show ?case by (simp add: dedup_scan_Nil)
next
  case (snoc r rules)
  show ?case
    using first_occurrences_snoc [where rules = rules and r = r and P = "\<lambda>x S. x \<in> S"] snoc
    by (simp only: dedup_scan_snoc split: if_splits) auto
qed

lemma dedup_scan_set: "set (fst (dedup_scan rules)) = set rules"
  by (induction rules rule: rev_induct) (auto simp: dedup_scan_Nil dedup_scan_snoc)

lemma dedup_scan_distinct: "distinct (fst (dedup_scan rules))"
  by (induction rules rule: rev_induct) (auto simp: dedup_scan_Nil dedup_scan_snoc dedup_scan_set)

lemma dedup_scan_count_kept:
  "count_list (fst (dedup_scan rules)) r = (if r \<in> set rules then 1 else 0)"
  by (induction rules rule: rev_induct) (auto simp: dedup_scan_Nil dedup_scan_snoc)

lemma dedup_scan_count_removed:
  "count_list (snd (dedup_scan rules)) r = count_list rules r - 1"
proof (induction rules rule: rev_induct)
  case Nil
  then show ?case by (simp add: dedup_scan_Nil)
next
  case (snoc x rules)
  have pos: "x \<in> set rules \<Longrightarrow> 0 < count_list rules x"
    using count_list_0_iff [of rules x] by auto
  show ?case using snoc pos
    by (auto simp: dedup_scan_snoc count_list_0_iff)
qed


text \<open>
  Claim C6. The deduplication keeps exactly the first occurrence of each string, in the
  order of the input: the kept list consists of the positions whose string does not occur
  earlier, the removed list of the positions whose string does, both in input order. A
  string that occurs \<open>n > 1\<close> times is kept once and removed \<open>n - 1\<close> times.
\<close>

theorem dedup_keeps_first_occurrences:
  "fst (dedup_scan rules) =
     [rules ! i. i \<leftarrow> [0..<length rules], rules ! i \<notin> set (take i rules)] \<and>
   snd (dedup_scan rules) =
     [rules ! i. i \<leftarrow> [0..<length rules], rules ! i \<in> set (take i rules)] \<and>
   distinct (fst (dedup_scan rules)) \<and>
   set (fst (dedup_scan rules)) = set rules \<and>
   (\<forall>r n. count_list rules r = n \<and> 1 < n \<longrightarrow>
      count_list (fst (dedup_scan rules)) r = 1 \<and>
      count_list (snd (dedup_scan rules)) r = n - 1)"
proof -
  have "count_list (fst (dedup_scan rules)) r = 1" if "1 < count_list rules r" for r
  proof -
    from that have "r \<in> set rules"
      using count_list_0_iff [of rules r] by auto
    then show ?thesis by (simp add: dedup_scan_count_kept)
  qed
  then have counts: "\<forall>r n. count_list rules r = n \<and> 1 < n \<longrightarrow>
      count_list (fst (dedup_scan rules)) r = 1 \<and>
      count_list (snd (dedup_scan rules)) r = n - 1"
    using dedup_scan_count_removed [of rules] by blast
  show ?thesis
    using dedup_scan_kept [of rules] dedup_scan_removed [of rules]
      dedup_scan_distinct [of rules] dedup_scan_set [of rules] counts
    by (intro conjI)
qed

theorem dedup_keeps_first_occurrences_witness:
  "count_list [''||a^'', ''b'', ''||a^'', ''c'', ''||a^'', ''b''] ''||a^'' = 3 \<and>
   (1::nat) < 3 \<and>
   count_list (fst (dedup_scan [''||a^'', ''b'', ''||a^'', ''c'', ''||a^'', ''b''])) ''||a^'' = 1 \<and>
   count_list (snd (dedup_scan [''||a^'', ''b'', ''||a^'', ''c'', ''||a^'', ''b''])) ''||a^'' = 3 - 1"
proof -
  have c: "count_list [''||a^'', ''b'', ''||a^'', ''c'', ''||a^'', ''b''] ''||a^'' = 3 \<and> (1::nat) < 3"
    by simp
  from dedup_keeps_first_occurrences [of "[''||a^'', ''b'', ''||a^'', ''c'', ''||a^'', ''b'']"]
  have "\<forall>r n. count_list [''||a^'', ''b'', ''||a^'', ''c'', ''||a^'', ''b''] r = n \<and> 1 < n \<longrightarrow>
      count_list (fst (dedup_scan [''||a^'', ''b'', ''||a^'', ''c'', ''||a^'', ''b''])) r = 1 \<and>
      count_list (snd (dedup_scan [''||a^'', ''b'', ''||a^'', ''c'', ''||a^'', ''b''])) r = n - 1"
    by (elim conjE)
  with c show ?thesis by blast
qed

section \<open>The end-to-end scenario\<close>

lemma scenario_normalized:
  "normalize_all default_config
     [''||a.com^'', ''||a.com^'', ''||x.a.com^'', ''! c'', ''plain.net''] =
   [''||a.com^'', ''||a.com^'', ''||x.a.com^'', ''||plain.net^'']"
  by code_simp

lemma scenario_deduplicated:
  "dedup_scan [''||a.com^'', ''||a.com^'', ''||x.a.com^'', ''||plain.net^''] =
   ([''||a.com^'', ''||x.a.com^'', ''||plain.net^''], [''||a.com^''])"
  by code_simp

lemma scenario_converged:
  "converge [''||a.com^'', ''||x.a.com^'', ''||plain.net^''] =
   ([''||a.com^'', ''||plain.net^''], [''||x.a.com^''])"
  by code_simp

text \<open>
  Claim C4. On the lines \<open>||a.com^\<close>, \<open>||a.com^\<close>, \<open>||x.a.com^\<close>, \<open>! c\<close>, \<open>plain.net\<close>,
  with the default configuration, normalization, deduplication and domain convergence
  leave the rules \<open>||a.com^\<close> and \<open>||plain.net^\<close>, and the statistics count one
  duplicate and one converged rule.
\<close>

theorem end_to_end_scenario:
  "(let normalized = normalize_all default_config
          [''||a.com^'', ''||a.com^'', ''||x.a.com^'', ''! c'', ''plain.net''];
        (deduplicated, w1) = deduplicate_rules e normalized (init_world old_log);
        (final, w2) = domain_convergence default_config e deduplicated w1
    in set final = {''||a.com^'', ''||plain.net^''} \<and>
       duplicate_count (stats w2) = 1 \<and> converged_count (stats w2) = 1)"
proof -
  have c: "cfg_domain_convergence default_config"
    by (simp add: default_config_def)
  show ?thesis
    unfolding scenario_normalized
    by (simp add: scenario_deduplicated scenario_converged c deduplicate_rules_def
        domain_convergence_def save_removed_rules_def init_world_def)
qed

section \<open>Properties of the domain convergence\<close>

lemma endswith_iff: "endswith s p \<longleftrightarrow> (\<exists>a. s = a @ p)"
proof
  assume "endswith s p"
  then have "s = take (length s - length p) s @ p"
    by (metis append_take_drop_id endswith_def)
  then show "\<exists>a. s = a @ p" ..
next
  assume "\<exists>a. s = a @ p"
  then show "endswith s p" by (auto simp: endswith_def)
qed

lemma endswith_dot_trans:
  "endswith h (''.'' @ m) \<Longrightarrow> endswith m (''.'' @ p) \<Longrightarrow> endswith h (''.'' @ p)"
  unfolding endswith_iff by auto

lemma endswith_dot_length: "endswith h (''.'' @ m) \<Longrightarrow> length m < length h"
  unfolding endswith_iff by auto

lemma is_domain_rule_anchored [simp]: "is_domain_rule (anchored d)"
  unfolding is_domain_rule_def anchored_def
  using startswith_append [of "''||''" "d @ ''^''"] endswith_append2 [of "''||''" d "''^''"]
  by simp

lemma domain_of_anchored [simp]: "domain_of (anchored d) = d"
  by (simp add: domain_of_def anchored_def)

lemma anchored_domain_of: "is_domain_rule r \<Longrightarrow> anchored (domain_of r) = r"
proof -
  assume a: "is_domain_rule r"
  then have p: "take 2 r = ''||''"
    by (simp add: is_domain_rule_def startswith_def numeral_2_eq_2)
  from a have "endswith r ''^''"
    by (simp add: is_domain_rule_def)
  then have e: "\<exists>a. r = a @ ''^''"
    by (simp only: endswith_iff)
  from e obtain a where ra: "r = a @ ''^''" by blast
  have r2: "r = ''||'' @ drop 2 r"
    using p by (metis append_take_drop_id)
  have "drop 2 r \<noteq> []"
  proof
    assume "drop 2 r = []"
    with r2 have "r = ''||''" by simp
    with ra show False by (cases a rule: rev_cases) auto
  qed
  moreover have "last r = CHR ''^''" using ra by simp
  ultimately have "last (drop 2 r) = CHR ''^''"
    by (metis last_drop drop_eq_Nil not_le)
  with \<open>drop 2 r \<noteq> []\<close> have "drop 2 r = butlast (drop 2 r) @ ''^''"
    by (metis append_butlast_last_id)
  with r2 show ?thesis
    by (simp add: anchored_def domain_of_def)
qed

lemma anchored_inj: "anchored a = anchored b \<Longrightarrow> a = b"
  by (simp add: anchored_def)

lemma dict_set_keys:
  "set (map fst (dict_set k v kvs)) = insert k (set (map fst kvs))"
  by (induction kvs) force+

lemma dict_set_distinct:
  "distinct (map fst kvs) \<Longrightarrow> distinct (map fst (dict_set k v kvs))"
  by (induction kvs) (auto simp: dict_set_keys [simplified])

lemma dict_set_values:
  "(k', v') \<in> set (dict_set k v kvs) \<Longrightarrow> (k', v') = (k, v) \<or> (k', v') \<in> set kvs"
  by (induction kvs) (auto split: if_splits)

lemma partition_foldl:
  "dict_ok dr \<Longrightarrow>
   dict_ok (fst (foldl partition_step (dr, oth) rules)) \<and>
   set (map fst (fst (foldl partition_step (dr, oth) rules))) =
     set (map fst dr) \<union> domain_of ` {r \<in> set rules. is_domain_rule r} \<and>
   snd (foldl partition_step (dr, oth) rules) = oth @ filter (\<lambda>r. \<not> is_domain_rule r) rules"
proof (induction rules arbitrary: dr oth)
  case Nil
  then show ?case by simp
next
  case (Cons r rules)
  show ?case
  proof (cases "is_domain_rule r")
    case True
    have "dict_ok (dict_set (domain_of r) r dr)"
      using Cons.prems True dict_set_values [of _ _ "domain_of r" r dr]
      by (fastforce simp: dict_ok_def dict_set_distinct anchored_domain_of)
    from Cons.IH [OF this, of oth] True show ?thesis
      by (auto simp: dict_set_keys [simplified])
  next
    case False
    with Cons.IH [OF Cons.prems, of "oth @ [r]"] show ?thesis by auto
  qed
qed

lemma partition_rules_props:
  "dict_ok (fst (partition_rules rules)) \<and>
   set (map fst (fst (partition_rules rules))) = domain_of ` {r \<in> set rules. is_domain_rule r} \<and>
   snd (partition_rules rules) = filter (\<lambda>r. \<not> is_domain_rule r) rules"
  using partition_foldl [of "[]" "[]" rules]
  by (simp add: partition_rules_def dict_ok_def)

lemma dict_ok_lookup:
  "dict_ok kvs \<Longrightarrow> d \<in> set (map fst kvs) \<Longrightarrow> the (map_of kvs d) = anchored d"
proof -
  assume ok: "dict_ok kvs" and d: "d \<in> set (map fst kvs)"
  then obtain v where "map_of kvs d = Some v"
    by (metis map_of_eq_None_iff not_Some_eq set_map)
  moreover from this have "(d, v) \<in> set kvs" by (rule map_of_SomeD)
  ultimately show ?thesis using ok by (auto simp: dict_ok_def)
qed

lemma mark_redundant_set:
  "distinct xs \<Longrightarrow> sorted (map (\<lambda>d. - int (length d)) xs) \<Longrightarrow>
   set (mark_redundant xs) = {h \<in> set xs. \<exists>q \<in> set xs. q \<noteq> h \<and> endswith h (''.'' @ q)}"
proof (induction xs)
  case Nil
  then show ?case by simp
next
  case (Cons d rest)
  have head: "list_ex (dominated d) rest \<longleftrightarrow>
              (\<exists>q \<in> set (d # rest). q \<noteq> d \<and> endswith d (''.'' @ q))"
    using Cons.prems(1) by (auto simp: list_ex_iff dominated_def)
  have tail: "\<not> endswith h (''.'' @ d)" if "h \<in> set rest" for h
  proof
    assume "endswith h (''.'' @ d)"
    then have "length d < length h" by (rule endswith_dot_length)
    moreover have "length h \<le> length d"
      using Cons.prems(2) that by auto
    ultimately show False by simp
  qed
  have IH: "set (mark_redundant rest) =
            {h \<in> set rest. \<exists>q \<in> set rest. q \<noteq> h \<and> endswith h (''.'' @ q)}"
    using Cons by simp
  have rest_eq: "{h \<in> set rest. \<exists>q \<in> set rest. q \<noteq> h \<and> endswith h (''.'' @ q)} =
                 {h \<in> set rest. \<exists>q \<in> set (d # rest). q \<noteq> h \<and> endswith h (''.'' @ q)}"
    using tail by auto
  show ?case
  proof (cases "list_ex (dominated d) rest")
    case True
    then have "\<exists>q \<in> set (d # rest). q \<noteq> d \<and> endswith d (''.'' @ q)"
      using head by simp
    with True IH rest_eq show ?thesis by auto
  next
    case False
    then have "\<not> (\<exists>q \<in> set (d # rest). q \<noteq> d \<and> endswith d (''.'' @ q))"
      using head by simp
    with False IH rest_eq Cons.prems(1) show ?thesis by auto
  qed
qed

lemma surviving_dominator:
  assumes R: "R = {h \<in> D. \<exists>q \<in> D. q \<noteq> h \<and> endswith h (''.'' @ q)}"
  shows "h \<in> R \<Longrightarrow> \<exists>q \<in> D - R. q \<noteq> h \<and> endswith h (''.'' @ q)"
proof (induction "length h" arbitrary: h rule: less_induct)
  case less
  from less.prems R obtain m where m: "m \<in> D" "m \<noteq> h" "endswith h (''.'' @ m)"
    by auto
  show ?case
  proof (cases "m \<in> R")
    case False
    with m show ?thesis by auto
  next
    case True
    have "length m < length h" using m(3) by (rule endswith_dot_length)
    from less.hyps [OF this True] obtain p where
      p: "p \<in> D - R" "endswith m (''.'' @ p)" by auto
    have hp: "endswith h (''.'' @ p)"
      using m(3) p(2) by (rule endswith_dot_trans)
    then have "p \<noteq> h"
      using endswith_dot_length [of h p] by auto
    with p(1) hp show ?thesis by auto
  qed
qed

lemma converge_sets:
  "set (snd (converge rules)) = anchored ` redundant rules \<and>
   set (fst (converge rules)) =
     {r \<in> set rules. \<not> is_domain_rule r} \<union> anchored ` (hosts rules - redundant rules) \<and>
   filter (\<lambda>r. \<not> is_domain_rule r) (fst (converge rules)) =
     filter (\<lambda>r. \<not> is_domain_rule r) rules \<and>
   distinct (snd (converge rules))"
proof -
  obtain dr oth where po: "partition_rules rules = (dr, oth)"
    by (cases "partition_rules rules")
  have ok: "dict_ok dr"
    and keys: "set (map fst dr) = hosts rules"
    and oth: "oth = filter (\<lambda>r. \<not> is_domain_rule r) rules"
    using partition_rules_props [of rules] po by (simp_all add: hosts_def)
  have dk: "distinct (map fst dr)" using ok by (simp add: dict_ok_def)
  define marks where "marks = mark_redundant (sorted_domains dr)"
  have sd: "set (sorted_domains dr) = hosts rules"
    using keys by (simp add: sorted_domains_def)
  have "distinct (sorted_domains dr)"
    using dk by (simp add: sorted_domains_def)
  moreover have "sorted (map (\<lambda>d. - int (length d)) (sorted_domains dr))"
    by (simp add: sorted_domains_def)
  ultimately have "set (mark_redundant (sorted_domains dr)) =
      {h \<in> set (sorted_domains dr).
         \<exists>q \<in> set (sorted_domains dr). q \<noteq> h \<and> endswith h (''.'' @ q)}"
    by (rule mark_redundant_set)
  then have marks: "set marks = redundant rules"
    unfolding marks_def redundant_def sd .
  have lookup: "map (\<lambda>d. the (map_of dr d)) ds = map anchored ds" if "set ds \<subseteq> hosts rules" for ds
    using that keys dict_ok_lookup [OF ok] by (intro map_cong) auto
  have red_sub: "redundant rules \<subseteq> hosts rules" by (auto simp: redundant_def)
  have c: "converge rules =
      (oth @ map anchored (filter (\<lambda>d. d \<notin> redundant rules) (map fst dr)),
       map anchored (remdups marks))"
    using lookup [of "remdups marks"] lookup [of "filter (\<lambda>d. d \<notin> redundant rules) (map fst dr)"]
      marks red_sub keys
    by (simp add: converge_def po marks_def [symmetric] Let_def)
  have inj: "inj_on anchored A" for A
    by (rule inj_onI) (rule anchored_inj)
  have "filter (\<lambda>r. \<not> is_domain_rule r) (map anchored ds) = []" for ds
    by (induction ds) auto
  then show ?thesis
    using c oth marks keys by (auto simp: distinct_map inj)
qed

lemma rules_split:
  "set rules = {r \<in> set rules. \<not> is_domain_rule r} \<union> anchored ` hosts rules"
proof -
  have "r \<in> anchored ` hosts rules" if "r \<in> set rules" "is_domain_rule r" for r
    using that anchored_domain_of [of r] by (force simp: hosts_def)
  moreover have "anchored h \<in> set rules" if "h \<in> hosts rules" for h
    using that anchored_domain_of by (auto simp: hosts_def)
  ultimately show ?thesis by auto
qed

lemma converge_removed_eq:
  "set (snd (converge rules)) = set rules - set (fst (converge rules))"
proof -
  let ?N = "{r \<in> set rules. \<not> is_domain_rule r}"
  have rm: "set (snd (converge rules)) = anchored ` redundant rules"
    and fin: "set (fst (converge rules)) = ?N \<union> anchored ` (hosts rules - redundant rules)"
    using converge_sets [of rules] by blast+
  have rs: "set rules = ?N \<union> anchored ` hosts rules"
    by (rule rules_split)
  have sub: "redundant rules \<subseteq> hosts rules"
    by (auto simp: redundant_def)
  show ?thesis
  proof (intro set_eqI iffI)
    fix x assume "x \<in> set (snd (converge rules))"
    then obtain h where h: "h \<in> redundant rules" "x = anchored h"
      using rm by auto
    have "x \<in> set rules" using h sub rs by auto
    moreover have "x \<notin> ?N" using h(2) by simp
    moreover have "x \<notin> anchored ` (hosts rules - redundant rules)"
    proof
      assume "x \<in> anchored ` (hosts rules - redundant rules)"
      then obtain k where k: "k \<in> hosts rules - redundant rules" "x = anchored k" by auto
      with h(2) have "k = h" using anchored_inj [of k h] by simp
      with k(1) h(1) show False by simp
    qed
    ultimately show "x \<in> set rules - set (fst (converge rules))"
      using fin by simp
  next
    fix x assume x: "x \<in> set rules - set (fst (converge rules))"
    then have "x \<notin> ?N" and nf: "x \<notin> anchored ` (hosts rules - redundant rules)"
      using fin by auto
    with x rs have "x \<in> anchored ` hosts rules" by auto
    then obtain h where h: "h \<in> hosts rules" "x = anchored h" by auto
    have "h \<in> redundant rules"
    proof (rule ccontr)
      assume "h \<notin> redundant rules"
      with h have "x \<in> anchored ` (hosts rules - redundant rules)" by auto
      with nf show False by simp
    qed
    with h(2) rm show "x \<in> set (snd (converge rules))" by auto
  qed
qed

lemma converge_dominated:
  assumes "r \<in> set (snd (converge rules))"
  shows "is_domain_rule r \<and>
         (\<exists>q \<in> set (fst (converge rules)). q \<notin> set (snd (converge rules)) \<and> is_domain_rule q \<and>
              q \<noteq> r \<and> endswith (domain_of r) (''.'' @ domain_of q))"
proof -
  from assms obtain h where h: "h \<in> redundant rules" "r = anchored h"
    using converge_sets [of rules] by auto
  from surviving_dominator [OF redundant_def h(1)]
  obtain m where m: "m \<in> hosts rules - redundant rules" "m \<noteq> h" "endswith h (''.'' @ m)"
    by auto
  have "anchored m \<in> set (fst (converge rules))"
    using m(1) converge_sets [of rules] by auto
  moreover have "anchored m \<notin> set (snd (converge rules))"
    using m(1) converge_sets [of rules] anchored_inj by auto
  moreover have "anchored m \<noteq> r"
    using m(2) h(2) anchored_inj by auto
  ultimately show ?thesis
    using h(2) m(3) by (intro conjI bexI [of _ "anchored m"]) simp_all
qed

text \<open>
  Claim C3. After domain convergence, the removed rules are the rules of the input that
  are missing from the output. Each of them is an anchored rule whose host ends with a
  dot followed by the host of another anchored rule that is in the output and is not
  removed; an anchored rule whose host is dominated by no other host of the output is
  not removed; the rules that are not anchored pass through unchanged, in their order.
  With convergence switched off nothing is removed.
\<close>

theorem convergence_removes_only_dominated:
  assumes run: "domain_convergence cfg e rules w = (final_rules, w')"
    and rem: "removed = (if cfg_domain_convergence cfg then set (snd (converge rules)) else {})"
  shows "removed = set rules - set final_rules \<and>
    (\<forall>r \<in> removed. is_domain_rule r \<and>
       (\<exists>q \<in> set final_rules. q \<notin> removed \<and> is_domain_rule q \<and> q \<noteq> r \<and>
          endswith (domain_of r) (''.'' @ domain_of q))) \<and>
    (\<forall>r \<in> set rules. is_domain_rule r \<and>
       \<not> (\<exists>q \<in> set final_rules. is_domain_rule q \<and> q \<noteq> r \<and>
            dominated (domain_of r) (domain_of q)) \<longrightarrow>
       r \<notin> removed \<and> r \<in> set final_rules) \<and>
    filter (\<lambda>r. \<not> is_domain_rule r) final_rules = filter (\<lambda>r. \<not> is_domain_rule r) rules"
proof (cases "cfg_domain_convergence cfg")
  case False
  with run rem show ?thesis by (simp add: domain_convergence_def)
next
  case True
  with run have fin: "final_rules = fst (converge rules)"
    by (auto simp: domain_convergence_def Let_def split: prod.splits)
  from True rem have r: "removed = set (snd (converge rules))" by simp
  have a: "removed = set rules - set final_rules"
    using converge_removed_eq [of rules] fin r by simp
  have b: "\<forall>r \<in> removed. is_domain_rule r \<and>
       (\<exists>q \<in> set final_rules. q \<notin> removed \<and> is_domain_rule q \<and> q \<noteq> r \<and>
          endswith (domain_of r) (''.'' @ domain_of q))"
    using converge_dominated [of _ rules] fin r by simp
  have c: "\<forall>r \<in> set rules. is_domain_rule r \<and>
       \<not> (\<exists>q \<in> set final_rules. is_domain_rule q \<and> q \<noteq> r \<and>
            dominated (domain_of r) (domain_of q)) \<longrightarrow>
       r \<notin> removed \<and> r \<in> set final_rules"
  proof (intro ballI impI)
    fix x assume x: "x \<in> set rules"
      and nd: "is_domain_rule x \<and> \<not> (\<exists>q \<in> set final_rules. is_domain_rule q \<and> q \<noteq> x \<and>
            dominated (domain_of x) (domain_of q))"
    have "x \<notin> removed"
    proof
      assume "x \<in> removed"
      with b obtain q' where "q' \<in> set final_rules" "is_domain_rule q'" "q' \<noteq> x"
        "endswith (domain_of x) (''.'' @ domain_of q')" by blast
      with nd show False by (auto simp: dominated_def)
    qed
    with a x show "x \<notin> removed \<and> x \<in> set final_rules" by auto
  qed
  have d: "filter (\<lambda>r. \<not> is_domain_rule r) final_rules = filter (\<lambda>r. \<not> is_domain_rule r) rules"
    using converge_sets [of rules] fin by simp
  from a b c d show ?thesis by (intro conjI)
qed

lemma example_converged:
  "converge [''||a.b.c^'', ''||c^'', ''x'', ''||b.c^''] =
   ([''x'', ''||c^''], [''||a.b.c^'', ''||b.c^''])"
  by code_simp

theorem convergence_removes_only_dominated_witness:
  "domain_convergence default_config example_env
     [''||a.b.c^'', ''||c^'', ''x'', ''||b.c^''] (init_world []) =
     ([''x'', ''||c^''],
      snd (domain_convergence default_config example_env
             [''||a.b.c^'', ''||c^'', ''x'', ''||b.c^''] (init_world []))) \<and>
   {''||a.b.c^'', ''||b.c^''} =
     (if cfg_domain_convergence default_config
      then set (snd (converge [''||a.b.c^'', ''||c^'', ''x'', ''||b.c^''])) else {}) \<and>
   {''||a.b.c^'', ''||b.c^''} =
      set [''||a.b.c^'', ''||c^'', ''x'', ''||b.c^''] - set [''x'', ''||c^''] \<and>
   is_domain_rule ''||a.b.c^'' \<and>
   (\<exists>q \<in> set [''x'', ''||c^'']. q \<notin> {''||a.b.c^'', ''||b.c^''} \<and> is_domain_rule q \<and>
      q \<noteq> ''||a.b.c^'' \<and> endswith (domain_of ''||a.b.c^'') (''.'' @ domain_of q)) \<and>
   is_domain_rule ''||c^'' \<and>
   \<not> (\<exists>q \<in> set [''x'', ''||c^'']. is_domain_rule q \<and> q \<noteq> ''||c^'' \<and>
        dominated (domain_of ''||c^'') (domain_of q)) \<and>
   ''||c^'' \<notin> {''||a.b.c^'', ''||b.c^''} \<and> ''||c^'' \<in> set [''x'', ''||c^''] \<and>
   filter (\<lambda>r. \<not> is_domain_rule r) [''x'', ''||c^''] =
     filter (\<lambda>r. \<not> is_domain_rule r) [''||a.b.c^'', ''||c^'', ''x'', ''||b.c^'']"
proof -
  have on: "cfg_domain_convergence default_config"
    by (simp add: default_config_def)
  have "fst (domain_convergence default_config example_env
          [''||a.b.c^'', ''||c^'', ''x'', ''||b.c^''] (init_world [])) = [''x'', ''||c^'']"
    by (simp add: domain_convergence_def on example_converged)
  then have h1: "domain_convergence default_config example_env
     [''||a.b.c^'', ''||c^'', ''x'', ''||b.c^''] (init_world []) =
     ([''x'', ''||c^''],
      snd (domain_convergence default_config example_env
             [''||a.b.c^'', ''||c^'', ''x'', ''||b.c^''] (init_world [])))"
    by (metis prod.collapse)
  have h2: "{''||a.b.c^'', ''||b.c^''} =
     (if cfg_domain_convergence default_config
      then set (snd (converge [''||a.b.c^'', ''||c^'', ''x'', ''||b.c^''])) else {})"
    by (simp add: on example_converged)
  note c = convergence_removes_only_dominated [OF h1 h2]
  have mem: "''||a.b.c^'' \<in> {''||a.b.c^'', ''||b.c^''}"
    and inp: "''||c^'' \<in> set [''||a.b.c^'', ''||c^'', ''x'', ''||b.c^'']"
    by simp_all
  have pre: "is_domain_rule ''||c^'' \<and>
     \<not> (\<exists>q \<in> set [''x'', ''||c^'']. is_domain_rule q \<and> q \<noteq> ''||c^'' \<and>
          dominated (domain_of ''||c^'') (domain_of q))"
    by (simp add: is_domain_rule_def startswith_def endswith_def)
  from c mem have c1: "is_domain_rule ''||a.b.c^'' \<and>
     (\<exists>q \<in> set [''x'', ''||c^'']. q \<notin> {''||a.b.c^'', ''||b.c^''} \<and> is_domain_rule q \<and>
        q \<noteq> ''||a.b.c^'' \<and> endswith (domain_of ''||a.b.c^'') (''.'' @ domain_of q))"
    by blast
  from c inp pre have c2: "''||c^'' \<notin> {''||a.b.c^'', ''||b.c^''} \<and> ''||c^'' \<in> set [''x'', ''||c^'']"
    by blast
  from h1 h2 c c1 c2 pre show ?thesis
    by (iprover intro: conjI)
qed

section \<open>Properties of the normalization\<close>

lemma set_dropWhile_keep: "\<not> P c \<Longrightarrow> c \<in> set (dropWhile P xs) \<longleftrightarrow> c \<in> set xs"
  by (induction xs) auto

lemma strip_mem: "\<not> isspace c \<Longrightarrow> c \<in> set (strip s) \<longleftrightarrow> c \<in> set s"
  by (simp add: strip_def set_dropWhile_keep)

lemma collapse_ws_mem: "\<not> isspace c \<Longrightarrow> c \<in> set (collapse_ws s) \<longleftrightarrow> c \<in> set s"
proof (induction s rule: collapse_ws.induct)
  case 1
  then show ?case by simp
next
  case (2 d ds)
  then show ?case
    by (cases "isspace d") (auto simp: set_dropWhile_keep isspace_def)
qed

lemma dollar_not_space: "\<not> isspace CHR ''$''"
  by (simp add: isspace_def)

lemma dollar_kept: "CHR ''$'' \<in> set (collapse_ws (strip raw)) \<longleftrightarrow> CHR ''$'' \<in> set raw"
  by (simp add: collapse_ws_mem strip_mem dollar_not_space)

lemma is_alpha_domain_char: "is_alpha c \<Longrightarrow> is_domain_char c"
  by (simp add: is_domain_char_def)

lemma try_lengths_chars:
  "k \<le> length (takeWhile is_domain_char s) \<Longrightarrow> try_lengths s k = Some d \<Longrightarrow>
   \<forall>c \<in> set d. is_domain_char c"
proof (induction k)
  case 0
  then show ?case by simp
next
  case (Suc k)
  let ?rest = "drop (Suc k) s"
  let ?letters = "takeWhile is_alpha (drop 1 ?rest)"
  show ?case
  proof (cases "startswith ?rest ''.'' \<and> 2 \<le> length ?letters")
    case False
    with Suc show ?thesis by (auto simp: Let_def)
  next
    case True
    then have d: "d = take (Suc k + 1 + length ?letters) s"
      using Suc.prems(2) by (simp add: Let_def)
    from True have r: "?rest = CHR ''.'' # drop 1 ?rest"
      by (cases ?rest) (auto simp: startswith_def)
    have "take (Suc k + 1 + length ?letters) s =
          take (Suc k) s @ take (1 + length ?letters) ?rest"
      by (simp only: add.assoc take_add)
    also have "take (1 + length ?letters) ?rest = CHR ''.'' # take (length ?letters) (drop 1 ?rest)"
      by (subst r) simp
    also have "take (length ?letters) (drop 1 ?rest) = ?letters"
      by (metis takeWhile_eq_take)
    finally have dd: "d = take (Suc k) s @ CHR ''.'' # ?letters"
      using d by simp
    have "take (Suc k) s =
          take (Suc k) (takeWhile is_domain_char s @ dropWhile is_domain_char s)"
      by simp
    also have "\<dots> = take (Suc k) (takeWhile is_domain_char s)"
      using Suc.prems(1) by (simp add: take_append del: takeWhile_dropWhile_id)
    finally have "take (Suc k) s = take (Suc k) (takeWhile is_domain_char s)" .
    then have "\<forall>c \<in> set (take (Suc k) s). is_domain_char c"
      by (metis in_set_takeD set_takeWhileD)
    moreover have "\<forall>c \<in> set ?letters. is_domain_char c"
      by (metis is_alpha_domain_char set_takeWhileD)
    moreover have "is_domain_char CHR ''.''"
      by (simp add: is_domain_char_def)
    ultimately show ?thesis using dd by auto
  qed
qed

lemma search_domain_chars:
  "search_domain s = Some d \<Longrightarrow> \<forall>c \<in> set d. is_domain_char c"
proof (induction s)
  case Nil
  then show ?case by simp
next
  case (Cons c cs)
  show ?case
  proof (cases "match_domain_at (c # cs)")
    case None
    with Cons show ?thesis by simp
  next
    case (Some e)
    with Cons.prems have "match_domain_at (c # cs) = Some d" by simp
    then have "try_lengths (c # cs) (length (takeWhile is_domain_char (c # cs))) = Some d"
      by (simp only: match_domain_at_def)
    then show ?thesis
      by (rule try_lengths_chars [OF le_refl])
  qed
qed

lemma dollar_not_domain_char: "\<not> is_domain_char CHR ''$''"
  by (simp add: is_domain_char_def is_alpha_def)

lemma convert_rewrite_drops_options:
  "convert_to_pipe_format rule \<noteq> rule \<Longrightarrow> CHR ''$'' \<notin> set (convert_to_pipe_format rule)"
proof -
  assume ne: "convert_to_pipe_format rule \<noteq> rule"
  then obtain d where d: "search_domain rule = Some d"
    and r: "convert_to_pipe_format rule = ''@@||'' @ d @ ''^'' \<or>
            convert_to_pipe_format rule = ''||'' @ d @ ''^''"
    by (auto simp: convert_to_pipe_format_def split: if_splits option.splits)
  from d have "CHR ''$'' \<notin> set d"
    using search_domain_chars dollar_not_domain_char by blast
  with r show ?thesis by auto
qed

lemma normalize_rule_with_options:
  assumes "strip raw \<noteq> []" "\<not> startswith (strip raw) ''!''" "\<not> startswith (strip raw) ''#''"
    and "CHR ''$'' \<in> set raw"
  shows "normalize_rule cfg raw =
         Some (if cfg_format_standardize cfg
               then convert_to_pipe_format (process_modifiers cfg (collapse_ws (strip raw)))
               else process_modifiers cfg (collapse_ws (strip raw)))"
  using assms dollar_kept [of raw] by (simp add: normalize_rule_def Let_def)

text \<open>
  Claim C1, as amended. For a rule line that contains \<open>$\<close> and keeps at least one
  modifier, with format standardization on, \<open>normalize_rule\<close> returns the
  canonicalization of the whole string \<open>pattern$modifiers\<close> (the sorted surviving
  modifiers joined by commas). When the canonicalization rewrites that string, the
  result has no \<open>$\<close>: the options are dropped, not reattached. They are kept when the
  canonicalization leaves the string unchanged.
\<close>

theorem normalize_canonicalizes_joined_rule:
  assumes "strip raw \<noteq> []" "\<not> startswith (strip raw) ''!''" "\<not> startswith (strip raw) ''#''"
    and "CHR ''$'' \<in> set raw"
    and "rule = collapse_ws (strip raw)"
    and "mods = select_modifiers (cfg_supported_modifiers cfg)
                  (modifier_list (rule_modifiers rule)) []"
    and "mods \<noteq> []"
    and "cfg_format_standardize cfg"
    and "joined = rule_pattern rule @ ''$'' @ join '','' (sort mods)"
  shows "normalize_rule cfg raw = Some (convert_to_pipe_format joined) \<and>
         (convert_to_pipe_format joined \<noteq> joined \<longrightarrow>
            CHR ''$'' \<notin> set (convert_to_pipe_format joined)) \<and>
         (convert_to_pipe_format joined = joined \<longrightarrow>
            normalize_rule cfg raw = Some (rule_pattern rule @ ''$'' @ join '','' (sort mods)))"
proof -
  have "process_modifiers cfg rule = joined"
    using assms(6,7,9) by (simp add: process_modifiers_def Let_def)
  then have "normalize_rule cfg raw = Some (convert_to_pipe_format joined)"
    using normalize_rule_with_options [OF assms(1-4), of cfg] assms(5,8) by simp
  then show ?thesis
    using convert_rewrite_drops_options [of joined] assms(9) by auto
qed

theorem normalize_canonicalizes_joined_rule_witness:
  "strip ''http://ads.example.org/x$third-party,important'' \<noteq> [] \<and>
   \<not> startswith (strip ''http://ads.example.org/x$third-party,important'') ''!'' \<and>
   \<not> startswith (strip ''http://ads.example.org/x$third-party,important'') ''#'' \<and>
   CHR ''$'' \<in> set ''http://ads.example.org/x$third-party,important'' \<and>
   select_modifiers (cfg_supported_modifiers default_config)
     (modifier_list (rule_modifiers
        (collapse_ws (strip ''http://ads.example.org/x$third-party,important'')))) [] \<noteq> [] \<and>
   cfg_format_standardize default_config \<and>
   normalize_rule default_config ''http://ads.example.org/x$third-party,important'' =
     Some ''||ads.example.org^'' \<and>
   CHR ''$'' \<notin> set ''||ads.example.org^''"
proof -
  let ?raw = "''http://ads.example.org/x$third-party,important''"
  let ?rule = "collapse_ws (strip ?raw)"
  let ?mods = "select_modifiers (cfg_supported_modifiers default_config)
                 (modifier_list (rule_modifiers ?rule)) []"
  let ?joined = "rule_pattern ?rule @ ''$'' @ join '','' (sort ?mods)"
  have h1: "strip ?raw \<noteq> []" by code_simp
  have h2: "\<not> startswith (strip ?raw) ''!''" by code_simp
  have h3: "\<not> startswith (strip ?raw) ''#''" by code_simp
  have h4: "CHR ''$'' \<in> set ?raw" by code_simp
  have h7: "?mods \<noteq> []" by code_simp
  have h8: "cfg_format_standardize default_config" by code_simp
  have j: "convert_to_pipe_format ?joined = ''||ads.example.org^''" by code_simp
  have d: "CHR ''$'' \<notin> set ''||ads.example.org^''" by code_simp
  note t = normalize_canonicalizes_joined_rule [OF h1 h2 h3 h4 refl refl h7 h8 refl]
  from t have "normalize_rule default_config ?raw = Some (convert_to_pipe_format ?joined)"
    by (rule conjunct1)
  then have n: "normalize_rule default_config ?raw = Some ''||ads.example.org^''"
    by (simp only: j)
  from h1 h2 h3 h4 h7 h8 n d show ?thesis
    by (iprover intro: conjI)
qed

text \<open>The claim as stated fails on \<open>bad.com$important\<close>: the modifier \<open>important\<close>
  survives, the pattern \<open>bad.com\<close> is rewritten to \<open>||bad.com^\<close>, and the result is
  \<open>||bad.com^\<close> without the option.\<close>

theorem normalize_reattach_counterexample:
  "CHR ''$'' \<in> set ''bad.com$important'' \<and>
   select_modifiers (cfg_supported_modifiers default_config)
     (modifier_list (rule_modifiers (collapse_ws (strip ''bad.com$important'')))) [] =
     [''important''] \<and>
   rule_pattern (collapse_ws (strip ''bad.com$important'')) = ''bad.com'' \<and>
   convert_to_pipe_format ''bad.com'' = ''||bad.com^'' \<and>
   convert_to_pipe_format ''bad.com'' \<noteq> ''bad.com'' \<and>
   normalize_rule default_config ''bad.com$important'' = Some ''||bad.com^'' \<and>
   normalize_rule default_config ''bad.com$important'' \<noteq> Some ''||bad.com^$important''"
  by code_simp

lemma select_modifiers_filter:
  "select_modifiers supported ms acc = acc @ filter (\<lambda>m. mod_name m \<in> set supported) ms"
  by (induction ms arbitrary: acc) auto

lemma split_on_hd:
  "split_on sep s \<noteq> [] \<and> hd (split_on sep s) = takeWhile (\<lambda>c. c \<noteq> sep) s"
  by (induction s) (auto split: list.splits)

lemma mod_name_takeWhile: "mod_name m = takeWhile (\<lambda>c. c \<noteq> CHR ''='') m"
  by (simp add: mod_name_def split_on_hd)

text \<open>
  Claim C7, as amended. For a rule line with a \<open>$\<close> part, the string that
  \<open>normalize_rule\<close> builds before the canonicalization is the pattern, followed, when
  tokens are kept, by \<open>$\<close> and the kept tokens sorted and joined by commas. The kept
  tokens are the stripped, non-empty comma-separated tokens whose name, the text before
  the first \<open>=\<close>, is in the allow-list. \<open>normalize_rule\<close> returns the canonicalization of
  that string, and the string itself when format standardization is off or the
  canonicalization leaves it unchanged.
\<close>

theorem normalize_filters_modifiers:
  assumes "strip raw \<noteq> []" "\<not> startswith (strip raw) ''!''" "\<not> startswith (strip raw) ''#''"
    and "CHR ''$'' \<in> set raw"
    and "rule = collapse_ws (strip raw)"
    and "kept = filter (\<lambda>m. takeWhile (\<lambda>c. c \<noteq> CHR ''='') m \<in> set (cfg_supported_modifiers cfg))
                  (filter (\<lambda>m. m \<noteq> [])
                     (map strip (split_on CHR '','' (rule_modifiers rule))))"
    and "built = (if kept = [] then rule_pattern rule
                  else rule_pattern rule @ ''$'' @ join '','' (sort kept))"
  shows "normalize_rule cfg raw =
           Some (if cfg_format_standardize cfg then convert_to_pipe_format built else built) \<and>
         sorted (sort kept) \<and> mset (sort kept) = mset kept \<and>
         (\<not> cfg_format_standardize cfg \<or> convert_to_pipe_format built = built \<longrightarrow>
            normalize_rule cfg raw = Some built)"
proof -
  have "select_modifiers (cfg_supported_modifiers cfg) (modifier_list (rule_modifiers rule)) [] = kept"
    using assms(6) by (simp add: select_modifiers_filter modifier_list_def mod_name_takeWhile)
  then have "process_modifiers cfg rule = built"
    using assms(7) by (simp add: process_modifiers_def Let_def)
  then have "normalize_rule cfg raw =
           Some (if cfg_format_standardize cfg then convert_to_pipe_format built else built)"
    using normalize_rule_with_options [OF assms(1-4), of cfg] assms(5) by simp
  then show ?thesis by auto
qed

theorem normalize_filters_modifiers_witness:
  "strip ''||bad.com^$domain=good.com,evilmod,important'' \<noteq> [] \<and>
   \<not> startswith (strip ''||bad.com^$domain=good.com,evilmod,important'') ''!'' \<and>
   \<not> startswith (strip ''||bad.com^$domain=good.com,evilmod,important'') ''#'' \<and>
   CHR ''$'' \<in> set ''||bad.com^$domain=good.com,evilmod,important'' \<and>
   normalize_rule (default_config\<lparr>cfg_supported_modifiers := [''domain'', ''important'']\<rparr>)
     ''||bad.com^$domain=good.com,evilmod,important'' =
     Some ''||bad.com^$domain=good.com,important''"
proof -
  let ?raw = "''||bad.com^$domain=good.com,evilmod,important''"
  let ?cfg = "default_config\<lparr>cfg_supported_modifiers := [''domain'', ''important'']\<rparr>"
  let ?rule = "collapse_ws (strip ?raw)"
  let ?kept = "filter (\<lambda>m. takeWhile (\<lambda>c. c \<noteq> CHR ''='') m \<in> set (cfg_supported_modifiers ?cfg))
                  (filter (\<lambda>m. m \<noteq> [])
                     (map strip (split_on CHR '','' (rule_modifiers ?rule))))"
  let ?built = "(if ?kept = [] then rule_pattern ?rule
                  else rule_pattern ?rule @ ''$'' @ join '','' (sort ?kept))"
  have h1: "strip ?raw \<noteq> []" by code_simp
  have h2: "\<not> startswith (strip ?raw) ''!''" by code_simp
  have h3: "\<not> startswith (strip ?raw) ''#''" by code_simp
  have h4: "CHR ''$'' \<in> set ?raw" by code_simp
  have b: "(if cfg_format_standardize ?cfg then convert_to_pipe_format ?built else ?built) =
           ''||bad.com^$domain=good.com,important''" by code_simp
  note t = normalize_filters_modifiers [OF h1 h2 h3 h4 refl refl refl, of ?cfg]
  from t have "normalize_rule ?cfg ?raw =
      Some (if cfg_format_standardize ?cfg then convert_to_pipe_format ?built else ?built)"
    by (rule conjunct1)
  then have n: "normalize_rule ?cfg ?raw = Some ''||bad.com^$domain=good.com,important''"
    by (simp only: b)
  from h1 h2 h3 h4 n show ?thesis
    by (iprover intro: conjI)
qed

text \<open>The claim as stated fails on \<open>ads.example.org/banner$third-party,foo\<close>: the
  token \<open>third-party\<close> is kept by the filter, and the result \<open>||ads.example.org^\<close> has no
  options.\<close>

theorem normalize_filters_modifiers_counterexample:
  "filter (\<lambda>m. takeWhile (\<lambda>c. c \<noteq> CHR ''='') m \<in> set (cfg_supported_modifiers default_config))
     (filter (\<lambda>m. m \<noteq> [])
        (map strip (split_on CHR '','' ''third-party,foo''))) = [''third-party''] \<and>
   normalize_rule default_config ''ads.example.org/banner$third-party,foo'' =
     Some ''||ads.example.org^'' \<and>
   CHR ''$'' \<notin> set ''||ads.example.org^'' \<and>
   \<not> endswith ''||ads.example.org^'' ''$third-party''"
  by code_simp

section \<open>The outcomes of \<open>run\<close>\<close>

lemma deduplicate_rules_keeps:
  "deduplicate_rules e rules w = (unique_rules, w') \<Longrightarrow>
   reduction_percent (stats w') = reduction_percent (stats w) \<and>
   optimized_file w' = optimized_file w \<and> statistics_file w' = statistics_file w"
  by (auto simp: deduplicate_rules_def save_removed_rules_def Let_def
      split: prod.splits if_splits)

lemma domain_convergence_keeps:
  "domain_convergence cfg e rules w = (final_rules, w') \<Longrightarrow>
   reduction_percent (stats w') = reduction_percent (stats w) \<and>
   optimized_file w' = optimized_file w \<and> statistics_file w' = statistics_file w"
  by (auto simp: domain_convergence_def save_removed_rules_def Let_def
      split: prod.splits if_splits)

text \<open>
  Claim C2. With no raw line \<open>run\<close> returns \<open>False\<close> and writes nothing. With at
  least one raw line the claim expects the three outputs and success; \<open>run\<close> instead
  calls \<open>save_results\<close> before \<open>save_statistics\<close> has stored \<open>reduction_percent\<close>, so
  building the header raises \<open>KeyError\<close>: neither the optimized file nor the statistics
  file is written and the exception leaves \<open>run\<close>.
\<close>

theorem run_outcomes:
  "(raw_rules = [] \<longrightarrow>
      run cfg e raw_rules (init_world old_log) = (Inr False, init_world old_log)) \<and>
   (raw_rules \<noteq> [] \<longrightarrow>
      fst (run cfg e raw_rules (init_world old_log)) = Inl (KeyError ''reduction_percent'') \<and>
      optimized_file (snd (run cfg e raw_rules (init_world old_log))) = None \<and>
      statistics_file (snd (run cfg e raw_rules (init_world old_log))) = None)"
proof (cases "raw_rules = []")
  case True
  then show ?thesis
    by (simp add: run_def init_world_def init_stats_def)
next
  case False
  let ?w = "(init_world old_log :: 'a world)\<lparr> stats := (stats (init_world old_log))\<lparr> original_count := length raw_rules \<rparr> \<rparr>"
  let ?w1 = "?w\<lparr> stats := (stats ?w)\<lparr> valid_count := length (normalize_all cfg raw_rules) \<rparr> \<rparr>"
  obtain u w2 where d: "deduplicate_rules e (normalize_all cfg raw_rules) ?w1 = (u, w2)"
    by (cases "deduplicate_rules e (normalize_all cfg raw_rules) ?w1")
  obtain f w3 where c: "domain_convergence cfg e u w2 = (f, w3)"
    by (cases "domain_convergence cfg e u w2")
  have "reduction_percent (stats ?w1) = None" "optimized_file ?w1 = None"
       "statistics_file ?w1 = None"
    by (simp_all add: init_world_def init_stats_def)
  with deduplicate_rules_keeps [OF d] domain_convergence_keeps [OF c]
  have k: "reduction_percent (stats w3) = None" "optimized_file w3 = None"
       "statistics_file w3 = None"
    by simp_all
  then have "save_results e f w3 = Inl (KeyError ''reduction_percent'')"
    by (simp add: save_results_def)
  then have "run cfg e raw_rules (init_world old_log) = (Inl (KeyError ''reduction_percent''), w3)"
    using False d c by (simp add: run_def Let_def)
  with k False show ?thesis by simp
qed

theorem run_outcomes_witness:
  "[''||a.com^''] \<noteq> [] \<and>
   fst (run default_config example_env [''||a.com^''] (init_world [])) =
     Inl (KeyError ''reduction_percent'') \<and>
   optimized_file (snd (run default_config example_env [''||a.com^''] (init_world []))) = None \<and>
   statistics_file (snd (run default_config example_env [''||a.com^''] (init_world []))) = None \<and>
   run default_config example_env [] (init_world []) = (Inr False, init_world [])"
  using run_outcomes [of "[''||a.com^'']" default_config example_env "[]"]
        run_outcomes [of "[]" default_config example_env "[]"]
  by simp

section \<open>The optimized file\<close>

lemma header_unlines:
  "header v m original optimized r = unlines (header_lines v m original optimized r)"
  by (simp add: header_def header_lines_def unlines_def)

lemma unlines_append: "unlines (xs @ ys) = unlines xs @ unlines ys"
  by (simp add: unlines_def)

lemma lines_from_line:
  "CHR 0x0A \<notin> set l \<Longrightarrow> lines_from cur (l @ NL @ rest) = (cur @ l) # lines_from [] rest"
  by (induction l arbitrary: cur) (auto simp: NL_def)

lemma file_lines_unlines:
  "\<forall>l \<in> set ls. CHR 0x0A \<notin> set l \<Longrightarrow> lines_from [] (unlines ls) = ls"
proof (induction ls)
  case Nil
  then show ?case by (simp add: unlines_def)
next
  case (Cons l ls)
  have "unlines (l # ls) = l @ NL @ unlines ls"
    by (simp add: unlines_def)
  with Cons show ?case
    using lines_from_line [of l "[]" "unlines ls"] by simp
qed

lemma digit_no_newline: "k < 10 \<Longrightarrow> ''0123456789'' ! k \<noteq> CHR 0x0A"
proof -
  assume "k < 10"
  then have "''0123456789'' ! k \<in> set ''0123456789''"
    by (intro nth_mem) simp
  then show ?thesis by auto
qed

lemma show_nat_no_newline: "CHR 0x0A \<notin> set (show_nat n)"
proof (induction n rule: show_nat.induct)
  case (1 n)
  show ?case
  proof (cases "n < 10")
    case True
    then show ?thesis
      using digit_no_newline [of n] by (subst show_nat.simps) simp
  next
    case False
    then show ?thesis
      using 1 digit_no_newline [of "n mod 10"] by (subst show_nat.simps) simp
  qed
qed

text \<open>
  Claim C9, as amended. When \<open>save_results\<close> writes the optimized file (the entry
  \<open>reduction_percent\<close> being present in the statistics), the file is a header of nine
  comment lines, each beginning with \<open>!\<close> (eight lines of metadata and a last line
  \<open>! \<close>), followed by the final rules sorted lexicographically, one per line, every line
  ended by a newline. The lines of the file are exactly these when neither the time
  stamps, the formatted percentage nor a rule contains a newline.
\<close>

theorem save_results_layout:
  assumes "reduction_percent (stats w) = Some r"
    and "hl = header_lines (now_version e) (now_iso e) (original_count (stats w))
                (length rules) (fmt2f e r)"
  shows "save_results e rules w =
           Inr (w\<lparr> optimized_file := Some (unlines (hl @ sort rules)) \<rparr>) \<and>
         length hl = 9 \<and>
         (\<forall>l \<in> set hl. startswith l ''!'') \<and>
         sorted (sort rules) \<and> mset (sort rules) = mset rules \<and>
         (CHR 0x0A \<notin> set (now_version e) \<and> CHR 0x0A \<notin> set (now_iso e) \<and>
          CHR 0x0A \<notin> set (fmt2f e r) \<and> (\<forall>rule \<in> set rules. CHR 0x0A \<notin> set rule) \<longrightarrow>
            file_lines (unlines (hl @ sort rules)) = hl @ sort rules)"
proof -
  have a: "save_results e rules w =
           Inr (w\<lparr> optimized_file := Some (unlines (hl @ sort rules)) \<rparr>)"
    using assms
    by (simp add: save_results_def header_unlines unlines_append)
       (simp add: unlines_def)
  have b: "length hl = 9"
    using assms(2) by (simp add: header_lines_def)
  have c: "\<forall>l \<in> set hl. startswith l ''!''"
    using assms(2) by (simp add: header_lines_def startswith_def)
  have d: "file_lines (unlines (hl @ sort rules)) = hl @ sort rules"
    if "CHR 0x0A \<notin> set (now_version e) \<and> CHR 0x0A \<notin> set (now_iso e) \<and>
        CHR 0x0A \<notin> set (fmt2f e r) \<and> (\<forall>rule \<in> set rules. CHR 0x0A \<notin> set rule)"
  proof -
    have "\<forall>l \<in> set hl. CHR 0x0A \<notin> set l"
      using that assms(2) show_nat_no_newline by (simp add: header_lines_def)
    with that have "\<forall>l \<in> set (hl @ sort rules). CHR 0x0A \<notin> set l"
      by auto
    then show ?thesis
      unfolding file_lines_def by (rule file_lines_unlines)
  qed
  from a b c d show ?thesis by simp
qed

theorem save_results_layout_witness:
  "reduction_percent (stats (save_statistics example_env (init_world []))) = Some 0 \<and>
   CHR 0x0A \<notin> set (now_version example_env) \<and> CHR 0x0A \<notin> set (now_iso example_env) \<and>
   CHR 0x0A \<notin> set (fmt2f example_env 0) \<and>
   CHR 0x0A \<notin> set ''||b.com^'' \<and> CHR 0x0A \<notin> set ''||a.com^'' \<and>
   save_results example_env [''||b.com^'', ''||a.com^'']
       (save_statistics example_env (init_world [])) =
     Inr ((save_statistics example_env (init_world []))
            \<lparr> optimized_file := Some (unlines
               [''! Title: Optimized AdGuard Home Filters'',
                ''! Description: Optimized filter list for AdGuard Home'',
                ''! Version: 20240101000000'',
                ''! Last Modified: 2024-01-01T00:00:00'',
                ''! Optimizer: GitHub Actions Automation'',
                ''! Original Rules: 0'',
                ''! Optimized Rules: 2'',
                ''! Reduction: 0.00%'',
                ''! '',
                ''||a.com^'', ''||b.com^'']) \<rparr>) \<and>
   file_lines (unlines
               [''! Title: Optimized AdGuard Home Filters'',
                ''! Description: Optimized filter list for AdGuard Home'',
                ''! Version: 20240101000000'',
                ''! Last Modified: 2024-01-01T00:00:00'',
                ''! Optimizer: GitHub Actions Automation'',
                ''! Original Rules: 0'',
                ''! Optimized Rules: 2'',
                ''! Reduction: 0.00%'',
                ''! '',
                ''||a.com^'', ''||b.com^'']) =
               [''! Title: Optimized AdGuard Home Filters'',
                ''! Description: Optimized filter list for AdGuard Home'',
                ''! Version: 20240101000000'',
                ''! Last Modified: 2024-01-01T00:00:00'',
                ''! Optimizer: GitHub Actions Automation'',
                ''! Original Rules: 0'',
                ''! Optimized Rules: 2'',
                ''! Reduction: 0.00%'',
                ''! '',
                ''||a.com^'', ''||b.com^'']"
proof -
  let ?w = "save_statistics example_env (init_world [])"
  let ?rules = "[''||b.com^'', ''||a.com^'']"
  let ?hl = "header_lines (now_version example_env) (now_iso example_env)
               (original_count (stats ?w)) (length ?rules) (fmt2f example_env 0)"
  have h1: "reduction_percent (stats ?w) = Some 0" by code_simp
  have n1: "CHR 0x0A \<notin> set (now_version example_env)" by code_simp
  have n2: "CHR 0x0A \<notin> set (now_iso example_env)" by code_simp
  have n3: "CHR 0x0A \<notin> set (fmt2f example_env 0)" by code_simp
  have n4: "CHR 0x0A \<notin> set ''||b.com^''" by simp
  have n5: "CHR 0x0A \<notin> set ''||a.com^''" by simp
  have v: "?hl @ sort ?rules =
               [''! Title: Optimized AdGuard Home Filters'',
                ''! Description: Optimized filter list for AdGuard Home'',
                ''! Version: 20240101000000'',
                ''! Last Modified: 2024-01-01T00:00:00'',
                ''! Optimizer: GitHub Actions Automation'',
                ''! Original Rules: 0'',
                ''! Optimized Rules: 2'',
                ''! Reduction: 0.00%'',
                ''! '',
                ''||a.com^'', ''||b.com^'']"
    by code_simp
  note t = save_results_layout [OF h1 refl, of example_env ?rules]
  from t have s: "save_results example_env ?rules ?w =
      Inr (?w\<lparr> optimized_file := Some (unlines (?hl @ sort ?rules)) \<rparr>)"
    by (rule conjunct1)
  from n4 n5 have "\<forall>rule \<in> set ?rules. CHR 0x0A \<notin> set rule" by simp
  with t n1 n2 n3 have f: "file_lines (unlines (?hl @ sort ?rules)) = ?hl @ sort ?rules"
    by blast
  from h1 n1 n2 n3 n4 n5 s f show ?thesis
    unfolding v by (iprover intro: conjI)
qed

text \<open>The claim as stated fails: the header has nine lines, so the ninth line of the
  file is \<open>! \<close> and what follows the first eight lines is not the sorted rules.\<close>

theorem header_eight_lines_counterexample:
  "map_option file_lines
     (case save_results example_env [''||a.com^'']
             (save_statistics example_env (init_world [])) of
        Inl err \<Rightarrow> None
      | Inr w' \<Rightarrow> optimized_file w') =
   Some [''! Title: Optimized AdGuard Home Filters'',
         ''! Description: Optimized filter list for AdGuard Home'',
         ''! Version: 20240101000000'',
         ''! Last Modified: 2024-01-01T00:00:00'',
         ''! Optimizer: GitHub Actions Automation'',
         ''! Original Rules: 0'',
         ''! Optimized Rules: 1'',
         ''! Reduction: 0.00%'',
         ''! '',
         ''||a.com^''] \<and>
   drop 8 [''! Title: Optimized AdGuard Home Filters'',
         ''! Description: Optimized filter list for AdGuard Home'',
         ''! Version: 20240101000000'',
         ''! Last Modified: 2024-01-01T00:00:00'',
         ''! Optimizer: GitHub Actions Automation'',
         ''! Original Rules: 0'',
         ''! Optimized Rules: 1'',
         ''! Reduction: 0.00%'',
         ''! '',
         ''||a.com^''] \<noteq> sort [''||a.com^'']"
  by code_simp

section \<open>The removal records\<close>







end
